theory Spec2Isabelle
  imports Main
begin

unbundle bit_operations_syntax

section \<open>Data model of \<^verbatim>\<open>src/mod.ts\<close>\<close>

text \<open>
  JavaScript \<^verbatim>\<open>bigint\<close> values are unbounded two's-complement integers, so they are
  \<^typ>\<open>int\<close> with the bit operations \<open>AND\<close>, \<open>OR\<close>, \<open>XOR\<close>, \<open>NOT\<close> of HOL.

  The two exceptions the class can raise are values of \<open>error\<close>: \<^verbatim>\<open>BigInt(x)\<close>
  raises a \<^verbatim>\<open>RangeError\<close> on a number that is not an integer, and a method that reads a
  private field (\<^verbatim>\<open>#bitfield\<close>, \<^verbatim>\<open>#frozen\<close>, ...) of a receiver that is not an instance
  raises a \<^verbatim>\<open>TypeError\<close>.
\<close>

datatype error = RangeError | TypeError

text \<open>
  A JavaScript \<^verbatim>\<open>number\<close>, as far as \<^verbatim>\<open>BigInt(number)\<close> can tell: either it is
  integer-valued, or it is not (a fraction, \<^verbatim>\<open>NaN\<close>, an infinity).
\<close>

datatype jsnumber = Integral int | NonIntegral

text \<open>
  \<^verbatim>\<open>IFlaggedBitfield<T>\<close>: the static side of a class. \<open>Flags\<close> is the flag definition in
  property order (an object has no two properties of one name), with the values already
  integers; \<open>DefaultBit\<close> is the default bitfield.
\<close>

record IFlaggedBitfield =
  Flags :: "(string \<times> int) list"
  DefaultBit :: int

text \<open>The private fields \<^verbatim>\<open>#con\<close>, \<^verbatim>\<open>#bitfield\<close>, \<^verbatim>\<open>#validFlags\<close>, \<^verbatim>\<open>#frozen\<close> of an instance.\<close>

record FlaggedBitfield =
  con :: IFlaggedBitfield
  bitfield :: int
  validFlags :: "(string \<times> int) list"
  frozen :: bool

text \<open>
  The values that can be passed as \<^verbatim>\<open>bits\<close>. \<open>JInstance\<close> carries the state the
  instance has when the call is made: \<open>resolve\<close> only reads its \<^verbatim>\<open>bitfield\<close>, and
  every method resolves its argument before it writes anything. \<open>JOther\<close> stands for
  every remaining value (\<^verbatim>\<open>null\<close>, a symbol, a function, an object of another class).
\<close>

datatype jsvalue =
    JUndefined
  | JBoolean bool
  | JNumber jsnumber
  | JBigInt int
  | JString string
  | JArray "jsvalue list"
  | JInstance FlaggedBitfield
  | JOther

text \<open>
  The store: instances are identified by their position, \<^verbatim>\<open>new\<close> appends, and an
  instance method names its receiver by position.
\<close>

type_synonym heap = "FlaggedBitfield list"

definition lookup :: "heap \<Rightarrow> nat \<Rightarrow> FlaggedBitfield option" where
  "lookup h r = (if r < length h then Some (h ! r) else None)"

section \<open>Static methods\<close>

text \<open>\<^verbatim>\<open>BigInt(n)\<close> for a number \<open>n\<close>.\<close>

fun toBigInt :: "jsnumber \<Rightarrow> error + int" where
  "toBigInt (Integral i) = Inr i"
| "toBigInt NonIntegral = Inl RangeError"

text \<open>\<^verbatim>\<open>safeIn(ob, key)\<close>: \<^verbatim>\<open>hasOwnProperty\<close>.\<close>

definition safeIn :: "(string \<times> int) list \<Rightarrow> string \<Rightarrow> bool" where
  "safeIn ob key = (key \<in> set (map fst ob))"

text \<open>\<^verbatim>\<open>Object.values(this.Flags).reduce((a, b) => a | BigInt(b), 0n)\<close>\<close>

definition getMask :: "IFlaggedBitfield \<Rightarrow> int" where
  "getMask cls = foldl (\<lambda>a b. a OR b) 0 (map snd (Flags cls))"

text \<open>\<^verbatim>\<open>Object.values(this.Flags).reduce((a, b) => a > BigInt(b) ? a : BigInt(b), 0n)\<close>\<close>

definition getMaxBit :: "IFlaggedBitfield \<Rightarrow> int" where
  "getMaxBit cls = foldl (\<lambda>a b. if a > b then a else b) 0 (map snd (Flags cls))"

text \<open>
  \<^verbatim>\<open>static resolve(bits)\<close>. The branches are those of the source: an array is reduced
  from the left starting at \<^verbatim>\<open>0n\<close> (an exception of an element ends the reduction);
  \<^verbatim>\<open>undefined\<close> is \<^verbatim>\<open>0n\<close>; a boolean is turned into a bigint and then takes the
  bigint branch; an instance gives its \<^verbatim>\<open>bitfield\<close>; a number or bigint is
  \<^verbatim>\<open>BigInt(bits) & this.getMask()\<close>; a string that is an own key of \<open>Flags\<close> gives
  \<^verbatim>\<open>BigInt(this.Flags[bits] ?? 0)\<close>; everything else is \<^verbatim>\<open>0n\<close>.
\<close>

fun resolve :: "IFlaggedBitfield \<Rightarrow> jsvalue \<Rightarrow> error + int" where
  "resolve cls (JArray bits) =
     foldl (\<lambda>a b. case a of
                     Inl e \<Rightarrow> Inl e
                   | Inr a' \<Rightarrow> (case resolve cls b of
                                  Inl e \<Rightarrow> Inl e
                                | Inr v \<Rightarrow> Inr (a' OR v)))
           (Inr 0) bits"
| "resolve cls JUndefined = Inr 0"
| "resolve cls (JBoolean b) = Inr ((if b then 1 else 0) AND getMask cls)"
| "resolve cls (JInstance i) = Inr (bitfield i)"
| "resolve cls (JNumber n) =
     (case toBigInt n of Inl e \<Rightarrow> Inl e | Inr v \<Rightarrow> Inr (v AND getMask cls))"
| "resolve cls (JBigInt v) = Inr (v AND getMask cls)"
| "resolve cls (JString s) =
     (if safeIn (Flags cls) s
      then Inr (case map_of (Flags cls) s of Some v \<Rightarrow> v | None \<Rightarrow> 0)
      else Inr 0)"
| "resolve cls JOther = Inr 0"

section \<open>Construction\<close>

text \<open>The comparator given to \<^verbatim>\<open>sort\<close>: \<^verbatim>\<open>(a, b) => (a[1] < b[1] ? -1 : 1)\<close>.\<close>

definition compareFlags :: "string \<times> int \<Rightarrow> string \<times> int \<Rightarrow> int" where
  "compareFlags a b = (if snd a < snd b then - 1 else 1)"

text \<open>
  \<^verbatim>\<open>Array.prototype.sort\<close> with that comparator, as an insertion sort from the left:
  an element goes in front of the first one it compares below. The comparator never
  answers 0; for two flags of one value the language leaves the order to the engine, and
  here they stay in property order. Nothing proved below depends on the order of two
  flags of one value.
\<close>

fun insertFlag :: "string \<times> int \<Rightarrow> (string \<times> int) list \<Rightarrow> (string \<times> int) list" where
  "insertFlag x [] = [x]"
| "insertFlag x (y # ys) =
     (if compareFlags x y < 0 then x # y # ys else y # insertFlag x ys)"

definition sortFlags :: "(string \<times> int) list \<Rightarrow> (string \<times> int) list" where
  "sortFlags fl = foldl (\<lambda>acc x. insertFlag x acc) [] fl"

text \<open>
  \<^verbatim>\<open>constructor(bits = this.#bitfield)\<close>: the default parameter replaces
  \<^verbatim>\<open>undefined\<close> by \<open>DefaultBit\<close>; the new instance is not frozen. The result is the
  store with the new instance and its position.
\<close>

definition constructor :: "heap \<Rightarrow> IFlaggedBitfield \<Rightarrow> jsvalue \<Rightarrow> error + (heap \<times> nat)" where
  "constructor h cls bits =
     (let bits' = (if bits = JUndefined then JBigInt (DefaultBit cls) else bits) in
      case resolve cls bits' of
        Inl e \<Rightarrow> Inl e
      | Inr v \<Rightarrow>
          Inr (h @ [\<lparr>con = cls, bitfield = v,
                     validFlags = sortFlags (Flags cls), frozen = False\<rparr>],
               length h))"

section \<open>Mutating methods\<close>

definition add :: "heap \<Rightarrow> nat \<Rightarrow> jsvalue \<Rightarrow> error + (heap \<times> nat)" where
  "add h self bits =
     (case lookup h self of
        None \<Rightarrow> Inl TypeError
      | Some t \<Rightarrow>
          if frozen t then Inr (h, self)
          else (case resolve (con t) bits of
                  Inl e \<Rightarrow> Inl e
                | Inr v \<Rightarrow>
                    Inr (h[self := t\<lparr>bitfield := (bitfield t OR v) AND getMask (con t)\<rparr>],
                         self)))"

definition remove :: "heap \<Rightarrow> nat \<Rightarrow> jsvalue \<Rightarrow> error + (heap \<times> nat)" where
  "remove h self bits =
     (case lookup h self of
        None \<Rightarrow> Inl TypeError
      | Some t \<Rightarrow>
          if frozen t then Inr (h, self)
          else (case resolve (con t) bits of
                  Inl e \<Rightarrow> Inl e
                | Inr v \<Rightarrow>
                    Inr (h[self := t\<lparr>bitfield := bitfield t AND NOT v AND getMask (con t)\<rparr>],
                         self)))"

definition missing :: "heap \<Rightarrow> nat \<Rightarrow> error + (heap \<times> nat)" where
  "missing h self =
     (case lookup h self of
        None \<Rightarrow> Inl TypeError
      | Some t \<Rightarrow> constructor h (con t) (JBigInt (NOT (bitfield t) AND getMask (con t))))"

definition invert :: "heap \<Rightarrow> nat \<Rightarrow> error + (heap \<times> nat)" where
  "invert h self =
     (case lookup h self of
        None \<Rightarrow> Inl TypeError
      | Some t \<Rightarrow>
          if frozen t then Inr (h, self)
          else (case missing h self of
                  Inl e \<Rightarrow> Inl e
                | Inr (h', m) \<Rightarrow>
                    (case lookup h' m of
                       None \<Rightarrow> Inl TypeError
                     | Some t' \<Rightarrow> Inr (h'[self := t\<lparr>bitfield := bitfield t'\<rparr>], self))))"

definition freeze :: "heap \<Rightarrow> nat \<Rightarrow> error + (heap \<times> nat)" where
  "freeze h self =
     (case lookup h self of
        None \<Rightarrow> Inl TypeError
      | Some t \<Rightarrow> Inr (h[self := t\<lparr>frozen := True\<rparr>], self))"

section \<open>Methods that return a new instance\<close>

definition with_fb :: "heap \<Rightarrow> nat \<Rightarrow> jsvalue \<Rightarrow> error + (heap \<times> nat)" where
  "with_fb h self bits =
     (case lookup h self of
        None \<Rightarrow> Inl TypeError
      | Some t \<Rightarrow>
          (case constructor h (con t) (JBigInt (bitfield t)) of
             Inl e \<Rightarrow> Inl e
           | Inr (h', n) \<Rightarrow> add h' n bits))"

definition without :: "heap \<Rightarrow> nat \<Rightarrow> jsvalue \<Rightarrow> error + (heap \<times> nat)" where
  "without h self bits =
     (case lookup h self of
        None \<Rightarrow> Inl TypeError
      | Some t \<Rightarrow>
          (case constructor h (con t) (JBigInt (bitfield t)) of
             Inl e \<Rightarrow> Inl e
           | Inr (h', n) \<Rightarrow> remove h' n bits))"

definition union_fb :: "heap \<Rightarrow> nat \<Rightarrow> jsvalue \<Rightarrow> error + (heap \<times> nat)" where
  "union_fb h self bits = with_fb h self bits"

definition intersection :: "heap \<Rightarrow> nat \<Rightarrow> jsvalue \<Rightarrow> error + (heap \<times> nat)" where
  "intersection h self bits =
     (case lookup h self of
        None \<Rightarrow> Inl TypeError
      | Some t \<Rightarrow>
          (case resolve (con t) bits of
             Inl e \<Rightarrow> Inl e
           | Inr v \<Rightarrow> constructor h (con t) (JBigInt (bitfield t AND v))))"

definition difference :: "heap \<Rightarrow> nat \<Rightarrow> jsvalue \<Rightarrow> error + (heap \<times> nat)" where
  "difference h self bits =
     (case lookup h self of
        None \<Rightarrow> Inl TypeError
      | Some t \<Rightarrow>
          (case resolve (con t) bits of
             Inl e \<Rightarrow> Inl e
           | Inr v \<Rightarrow> constructor h (con t) (JBigInt (bitfield t AND NOT v))))"

definition symmetricDifference :: "heap \<Rightarrow> nat \<Rightarrow> jsvalue \<Rightarrow> error + (heap \<times> nat)" where
  "symmetricDifference h self bits =
     (case lookup h self of
        None \<Rightarrow> Inl TypeError
      | Some t \<Rightarrow>
          (case resolve (con t) bits of
             Inl e \<Rightarrow> Inl e
           | Inr v \<Rightarrow> constructor h (con t) (JBigInt (bitfield t XOR v))))"

definition complement :: "heap \<Rightarrow> nat \<Rightarrow> error + (heap \<times> nat)" where
  "complement h self = missing h self"

section \<open>Queries\<close>

text \<open>
  The methods that only read are functions of the receiver's state. \<open>any_fb\<close> goes
  through \<open>intersection\<close>, which builds an instance, so it takes the store.
\<close>

definition has :: "FlaggedBitfield \<Rightarrow> jsvalue \<Rightarrow> error + bool" where
  "has t bits =
     (case resolve (con t) bits of
        Inl e \<Rightarrow> Inl e
      | Inr v \<Rightarrow> Inr (bitfield t AND v \<noteq> 0))"

definition equals :: "FlaggedBitfield \<Rightarrow> jsvalue \<Rightarrow> error + bool" where
  "equals t bits =
     (case resolve (con t) bits of
        Inl e \<Rightarrow> Inl e
      | Inr v \<Rightarrow> Inr (bitfield t = v))"

definition any_fb :: "heap \<Rightarrow> nat \<Rightarrow> jsvalue \<Rightarrow> error + bool" where
  "any_fb h self bits =
     (case intersection h self bits of
        Inl e \<Rightarrow> Inl e
      | Inr (h', n) \<Rightarrow>
          (case lookup h' n of
             None \<Rightarrow> Inl TypeError
           | Some t' \<Rightarrow> Inr (bitfield t' \<noteq> 0)))"

definition isFrozen :: "FlaggedBitfield \<Rightarrow> bool" where
  "isFrozen t = frozen t"

definition getFlags :: "FlaggedBitfield \<Rightarrow> (string \<times> int) list" where
  "getFlags t = Flags (con t)"

section \<open>Enumeration\<close>

text \<open>
  The generator \<^verbatim>\<open>[Symbol.iterator]\<close>, as the list of what it yields: it walks
  \<^verbatim>\<open>#validFlags\<close> and yields the flag when \<^verbatim>\<open>(this.#bitfield & bit) !== 0n\<close>.
\<close>

fun iterate :: "int \<Rightarrow> (string \<times> int) list \<Rightarrow> string list" where
  "iterate bf [] = []"
| "iterate bf ((flag, b) # rest) =
     (if bf AND b \<noteq> 0 then flag # iterate bf rest else iterate bf rest)"

definition iterator :: "FlaggedBitfield \<Rightarrow> string list" where
  "iterator t = iterate (bitfield t) (validFlags t)"

definition toArray :: "FlaggedBitfield \<Rightarrow> string list" where
  "toArray t = iterator t"

definition entries :: "FlaggedBitfield \<Rightarrow> (string \<times> int) list" where
  "entries t = validFlags t"

definition keys :: "FlaggedBitfield \<Rightarrow> string list" where
  "keys t = map fst (validFlags t)"

definition values_fb :: "FlaggedBitfield \<Rightarrow> int list" where
  "values_fb t = map snd (validFlags t)"

text \<open>
  \<^verbatim>\<open>findIndex\<close>: the loop \<^verbatim>\<open>for (let i = 0; i < this.#validFlags.length; i++)\<close>,
  started at \<open>i\<close>; the predicate is a function of the flag name.
\<close>

function findIndexFrom :: "(string \<times> int) list \<Rightarrow> (string \<Rightarrow> bool) \<Rightarrow> nat \<Rightarrow> int" where
  "findIndexFrom vf predicate i =
     (if i < length vf
      then (if predicate (fst (vf ! i)) then int i else findIndexFrom vf predicate (i + 1))
      else - 1)"
  by pat_completeness auto
termination
  by (relation "measure (\<lambda>(vf, predicate, i). length vf - i)") auto

definition findIndex :: "FlaggedBitfield \<Rightarrow> (string \<Rightarrow> bool) \<Rightarrow> int" where
  "findIndex t predicate = findIndexFrom (validFlags t) predicate 0"

text \<open>\<^verbatim>\<open>find\<close>: the first yielded flag that satisfies the predicate, if any.\<close>

fun findFirst :: "(string \<Rightarrow> bool) \<Rightarrow> string list \<Rightarrow> string option" where
  "findFirst predicate [] = None"
| "findFirst predicate (f # fs) = (if predicate f then Some f else findFirst predicate fs)"

definition find_fb :: "FlaggedBitfield \<Rightarrow> (string \<Rightarrow> bool) \<Rightarrow> string option" where
  "find_fb t predicate = findFirst predicate (iterator t)"

section \<open>Programs over the store\<close>

text \<open>The eight methods that return a new instance, under one name.\<close>

datatype derivation =
  With | Without | Union | Missing | Complement | Intersection | Difference | SymmetricDifference

fun derive :: "derivation \<Rightarrow> heap \<Rightarrow> nat \<Rightarrow> jsvalue \<Rightarrow> error + (heap \<times> nat)" where
  "derive With h self bits = with_fb h self bits"
| "derive Without h self bits = without h self bits"
| "derive Union h self bits = union_fb h self bits"
| "derive Missing h self bits = missing h self"
| "derive Complement h self bits = complement h self"
| "derive Intersection h self bits = intersection h self bits"
| "derive Difference h self bits = difference h self bits"
| "derive SymmetricDifference h self bits = symmetricDifference h self bits"

text \<open>
  A call that can change the store: \<^verbatim>\<open>new C(bits)\<close>, a mutating method, or one of the
  eight above. A program is a list of calls run from a store; an exception ends it.
  Every store a program can build is \<open>run [] cs\<close> for some \<open>cs\<close> (a call that raised
  and was caught changed nothing). The instances inside the inputs of the calls are not
  tied to the store, so \<open>run\<close> covers every real program and more.
\<close>

datatype call =
    New IFlaggedBitfield jsvalue
  | Add nat jsvalue
  | Remove nat jsvalue
  | Invert nat
  | Freeze nat
  | Derive derivation nat jsvalue

fun exec :: "heap \<Rightarrow> call \<Rightarrow> error + (heap \<times> nat)" where
  "exec h (New cls bits) = constructor h cls bits"
| "exec h (Add self bits) = add h self bits"
| "exec h (Remove self bits) = remove h self bits"
| "exec h (Invert self) = invert h self"
| "exec h (Freeze self) = freeze h self"
| "exec h (Derive d self bits) = derive d h self bits"

fun run :: "heap \<Rightarrow> call list \<Rightarrow> error + heap" where
  "run h [] = Inr h"
| "run h (c # cs) = (case exec h c of Inl e \<Rightarrow> Inl e | Inr (h', r) \<Rightarrow> run h' cs)"

text \<open>An input in which every number is integer-valued, at any depth of arrays.\<close>

fun integral :: "jsvalue \<Rightarrow> bool" where
  "integral (JNumber n) = (n \<noteq> NonIntegral)"
| "integral (JArray bits) = list_all integral bits"
| "integral JUndefined = True"
| "integral (JBoolean b) = True"
| "integral (JBigInt v) = True"
| "integral (JString s) = True"
| "integral (JInstance i) = True"
| "integral JOther = True"

section \<open>Example classes\<close>

text \<open>The class of the README: \<^verbatim>\<open>{ Read: 1n, Write: 2n, Execute: 4n, Admin: 8n }\<close>.\<close>

definition Permissions :: IFlaggedBitfield where
  "Permissions =
     \<lparr>Flags = [(''Read'', 1), (''Write'', 2), (''Execute'', 4), (''Admin'', 8)],
      DefaultBit = 0\<rparr>"

text \<open>
  Two classes of one TypeScript type \<^verbatim>\<open>{ A: bigint; B: bigint }\<close>, so that an instance
  of one is accepted where the other's \<^verbatim>\<open>Bit<T>\<close> is expected.
\<close>

definition LowFlags :: IFlaggedBitfield where
  "LowFlags = \<lparr>Flags = [(''A'', 1), (''B'', 2)], DefaultBit = 0\<rparr>"

definition HighFlags :: IFlaggedBitfield where
  "HighFlags = \<lparr>Flags = [(''A'', 4), (''B'', 8)], DefaultBit = 0\<rparr>"

text \<open>A class with a flag of value 0.\<close>

definition WithNone :: IFlaggedBitfield where
  "WithNone = \<lparr>Flags = [(''None'', 0), (''Read'', 1), (''Write'', 2)], DefaultBit = 0\<rparr>"

section \<open>Auxiliary notions for the proofs\<close>

text \<open>The callback of the \<^verbatim>\<open>reduce\<close> in \<open>resolve\<close>, \<^verbatim>\<open>(a, b) => a | this.resolve(b)\<close>, by name.\<close>

definition orStep :: "IFlaggedBitfield \<Rightarrow> error + int \<Rightarrow> jsvalue \<Rightarrow> error + int" where
  "orStep cls a b = (case a of Inl e \<Rightarrow> Inl e | Inr a' \<Rightarrow> (case resolve cls b of Inl e \<Rightarrow> Inl e | Inr v \<Rightarrow> Inr (a' OR v)))"

text \<open>
  The instance the constructor appends for a resolved value \<open>v\<close>; the bitfield of the
  instance each of the eight methods returns, from the receiver's bitfield \<open>x\<close>, the
  resolved input \<open>v\<close> and the mask \<open>m\<close> (the constructor masks its bigint argument, and
  \<open>add\<close> and \<open>remove\<close> mask again); and the property of \<^verbatim>\<open>#validFlags\<close> that the
  constructor sets up.
\<close>

abbreviation fresh :: "IFlaggedBitfield \<Rightarrow> int \<Rightarrow> FlaggedBitfield" where
  "fresh cls v \<equiv> \<lparr>con = cls, bitfield = v, validFlags = sortFlags (Flags cls), frozen = False\<rparr>"

definition derivedValue :: "derivation \<Rightarrow> int \<Rightarrow> int \<Rightarrow> int \<Rightarrow> int" where
  "derivedValue d x v m =
     (case d of
        With \<Rightarrow> ((x AND m) OR v) AND m
      | Union \<Rightarrow> ((x AND m) OR v) AND m
      | Without \<Rightarrow> (x AND m) AND NOT v AND m
      | Missing \<Rightarrow> (NOT x AND m) AND m
      | Complement \<Rightarrow> (NOT x AND m) AND m
      | Intersection \<Rightarrow> (x AND v) AND m
      | Difference \<Rightarrow> (x AND NOT v) AND m
      | SymmetricDifference \<Rightarrow> (x XOR v) AND m)"

definition validFlagsOk :: "FlaggedBitfield \<Rightarrow> bool" where
  "validFlagsOk t = (validFlags t = sortFlags (Flags (con t)))"

text \<open>
  The invariant of the specification, \<^verbatim>\<open>value & ~mask == 0\<close>; an input in which every
  instance has its bits inside the mask of the class that resolves it; and a call whose
  constructor input is such.
\<close>

definition inMask :: "IFlaggedBitfield \<Rightarrow> int \<Rightarrow> bool" where
  "inMask cls v = (v AND NOT (getMask cls) = 0)"

fun instancesInMask :: "IFlaggedBitfield \<Rightarrow> jsvalue \<Rightarrow> bool" where
  "instancesInMask cls (JInstance i) = inMask cls (bitfield i)"
| "instancesInMask cls (JArray bits) = list_all (instancesInMask cls) bits"
| "instancesInMask cls JUndefined = True"
| "instancesInMask cls (JBoolean b) = True"
| "instancesInMask cls (JNumber n) = True"
| "instancesInMask cls (JBigInt v) = True"
| "instancesInMask cls (JString s) = True"
| "instancesInMask cls JOther = True"

definition instanceInMask :: "FlaggedBitfield \<Rightarrow> bool" where
  "instanceInMask t = inMask (con t) (bitfield t)"

fun callInMask :: "call \<Rightarrow> bool" where
  "callInMask (New cls bits) = instancesInMask cls bits"
| "callInMask (Add self bits) = True"
| "callInMask (Remove self bits) = True"
| "callInMask (Invert self) = True"
| "callInMask (Freeze self) = True"
| "callInMask (Derive d self bits) = True"

declare findIndexFrom.simps [simp del]

section \<open>The store\<close>

lemma lookup_Some_iff: "lookup h r = Some t \<longleftrightarrow> r < length h \<and> h ! r = t"
  by (auto simp: lookup_def)

lemma lookup_None_iff: "lookup h r = None \<longleftrightarrow> length h \<le> r"
  by (auto simp: lookup_def)

lemma lookup_snoc: "lookup (h @ [x]) r = (if r = length h then Some x else lookup h r)"
  by (auto simp: lookup_def nth_append)

lemma lookup_update: "lookup (h[q := x]) r = (if r = q \<and> q < length h then Some x else lookup h r)"
  by (auto simp: lookup_def)

section \<open>Properties of \<open>resolve\<close>\<close>

lemma safeIn_map_of: "safeIn fl s \<longleftrightarrow> map_of fl s \<noteq> None"
  by (simp add: safeIn_def map_of_eq_None_iff)


lemma resolve_array_foldl: "resolve cls (JArray bs) = foldl (orStep cls) (Inr 0) bs"
  by (simp add: orStep_def[abs_def])

lemma orStep_Inl: "orStep cls (Inl e) b = Inl e"
  by (simp add: orStep_def)

lemma orStep_Inr:
  "orStep cls (Inr a) b = (case resolve cls b of Inl e \<Rightarrow> Inl e | Inr v \<Rightarrow> Inr (a OR v))"
  by (simp add: orStep_def)

lemma foldl_orStep_Inl: "foldl (orStep cls) (Inl e) bs = Inl e"
  by (induction bs) (simp_all add: orStep_Inl)

lemma foldl_orStep_Inr:
  "foldl (orStep cls) (Inr a) bs =
     (case foldl (orStep cls) (Inr 0) bs of Inl e \<Rightarrow> Inl e | Inr w \<Rightarrow> Inr (a OR w))"
proof (induction bs arbitrary: a)
  case Nil
  show ?case by simp
next
  case (Cons b bs)
  show ?case
  proof (cases "resolve cls b")
    case (Inl e)
    then show ?thesis by (simp add: orStep_Inr foldl_orStep_Inl)
  next
    case (Inr v)
    then have "foldl (orStep cls) (Inr a) (b # bs) = foldl (orStep cls) (Inr (a OR v)) bs"
      by (simp add: orStep_Inr)
    moreover have "foldl (orStep cls) (Inr 0) (b # bs) = foldl (orStep cls) (Inr v) bs"
      using Inr by (simp add: orStep_Inr)
    ultimately show ?thesis
      using Cons.IH[of "a OR v"] Cons.IH[of v]
      by (auto split: sum.splits simp: or.assoc)
  qed
qed

lemma resolve_array_snoc:
  "resolve cls (JArray (bs @ [b])) =
     (case resolve cls (JArray bs) of
        Inl e \<Rightarrow> Inl e
      | Inr a \<Rightarrow> (case resolve cls b of Inl e \<Rightarrow> Inl e | Inr v \<Rightarrow> Inr (a OR v)))"
  by (simp add: resolve_array_foldl orStep_def del: resolve.simps(1))

lemma resolve_array_cons:
  "resolve cls (JArray (b # bs)) =
     (case resolve cls b of
        Inl e \<Rightarrow> Inl e
      | Inr v \<Rightarrow> (case resolve cls (JArray bs) of Inl e \<Rightarrow> Inl e | Inr w \<Rightarrow> Inr (v OR w)))"
proof (cases "resolve cls b")
  case (Inl e)
  then show ?thesis
    by (simp add: resolve_array_foldl orStep_Inr foldl_orStep_Inl del: resolve.simps(1))
next
  case (Inr v)
  then have "resolve cls (JArray (b # bs)) = foldl (orStep cls) (Inr v) bs"
    by (simp add: resolve_array_foldl orStep_Inr del: resolve.simps(1))
  then show ?thesis
    using Inr foldl_orStep_Inr[of cls v bs]
    by (simp add: resolve_array_foldl del: resolve.simps(1))
qed

lemma resolve_integral: "integral bits \<Longrightarrow> \<exists>v. resolve cls bits = Inr v"
proof (induction bits)
  case (JArray bs)
  then show ?case
  proof (induction bs)
    case Nil
    show ?case by simp
  next
    case (Cons b bs)
    have "\<exists>v. resolve cls b = Inr v"
      using Cons.prems by simp
    moreover have "\<exists>w. resolve cls (JArray bs) = Inr w"
      using Cons by simp
    ultimately show ?case
      by (auto simp add: resolve_array_cons simp del: resolve.simps(1))
  qed
next
  case (JNumber n)
  then show ?case by (cases n) auto
qed (auto simp: safeIn_map_of)

section \<open>Sorting and enumeration\<close>

lemma set_insertFlag: "set (insertFlag x ys) = insert x (set ys)"
  by (induction ys) auto

lemma length_insertFlag: "length (insertFlag x ys) = Suc (length ys)"
  by (induction ys) auto

lemma sorted_insertFlag:
  "sorted (map snd ys) \<Longrightarrow> sorted (map snd (insertFlag x ys))"
  by (induction ys) (auto simp: compareFlags_def set_insertFlag)

lemma distinct_insertFlag:
  "distinct (map fst ys) \<Longrightarrow> fst x \<notin> fst ` set ys \<Longrightarrow> distinct (map fst (insertFlag x ys))"
  by (induction ys) (auto simp: set_insertFlag)

lemma foldl_insertFlag_set:
  "set (foldl (\<lambda>acc x. insertFlag x acc) acc fl) = set acc \<union> set fl"
  by (induction fl arbitrary: acc) (auto simp: set_insertFlag)

lemma foldl_insertFlag_sorted:
  "sorted (map snd acc) \<Longrightarrow> sorted (map snd (foldl (\<lambda>acc x. insertFlag x acc) acc fl))"
  by (induction fl arbitrary: acc) (auto simp: sorted_insertFlag)

lemma foldl_insertFlag_distinct:
  "distinct (map fst acc) \<Longrightarrow> distinct (map fst fl) \<Longrightarrow> fst ` set acc \<inter> fst ` set fl = {}
   \<Longrightarrow> distinct (map fst (foldl (\<lambda>acc x. insertFlag x acc) acc fl))"
proof (induction fl arbitrary: acc)
  case Nil
  then show ?case by simp
next
  case (Cons x fl)
  have "distinct (map fst (insertFlag x acc))"
    using Cons.prems by (intro distinct_insertFlag) auto
  moreover have "fst ` set (insertFlag x acc) \<inter> fst ` set fl = {}"
    using Cons.prems by (auto simp: set_insertFlag)
  ultimately show ?case
    using Cons.IH[of "insertFlag x acc"] Cons.prems by simp
qed

lemma set_sortFlags: "set (sortFlags fl) = set fl"
  by (simp add: sortFlags_def foldl_insertFlag_set)

lemma sorted_sortFlags: "sorted (map snd (sortFlags fl))"
  by (simp add: sortFlags_def foldl_insertFlag_sorted)

lemma distinct_sortFlags: "distinct (map fst fl) \<Longrightarrow> distinct (map fst (sortFlags fl))"
  by (simp add: sortFlags_def foldl_insertFlag_distinct)

lemma iterate_filter: "iterate bf vf = map fst (filter (\<lambda>p. bf AND snd p \<noteq> 0) vf)"
  by (induction bf vf rule: iterate.induct) auto

lemma set_iterate: "set (iterate bf vf) = {n. \<exists>v. (n, v) \<in> set vf \<and> bf AND v \<noteq> 0}"
  by (auto simp: iterate_filter image_iff)

lemma distinct_iterate: "distinct (map fst vf) \<Longrightarrow> distinct (iterate bf vf)"
  by (simp add: iterate_filter distinct_map_filter)

lemma map_of_declared:
  "distinct (map fst fl) \<Longrightarrow> (n, v) \<in> set fl \<Longrightarrow> map_of fl n = Some v"
  by simp

lemma sorted_iterate:
  assumes "distinct (map fst vf)" and "sorted (map snd vf)"
    and "\<And>n v. (n, v) \<in> set vf \<Longrightarrow> val n = v"
  shows "sorted (map val (iterate bf vf))"
proof -
  have "map val (iterate bf vf) = map snd (filter (\<lambda>p. bf AND snd p \<noteq> 0) vf)"
    using assms(3) by (auto simp: iterate_filter)
  moreover have "sorted (map snd (filter (\<lambda>p. bf AND snd p \<noteq> 0) vf))"
    using assms(2) by (simp add: sorted_filter)
  ultimately show ?thesis by simp
qed

lemma findIndexFrom_unfold_out: "\<not> i < length vf \<Longrightarrow> findIndexFrom vf p i = - 1"
  by (subst findIndexFrom.simps) simp

lemma findIndexFrom_unfold_hit:
  "i < length vf \<Longrightarrow> p (fst (vf ! i)) \<Longrightarrow> findIndexFrom vf p i = int i"
  by (subst findIndexFrom.simps) simp

lemma findIndexFrom_unfold_miss:
  "i < length vf \<Longrightarrow> \<not> p (fst (vf ! i)) \<Longrightarrow> findIndexFrom vf p i = findIndexFrom vf p (i + 1)"
  by (subst findIndexFrom.simps) simp

lemma findIndexFrom_none:
  "findIndexFrom vf p i = - 1 \<longleftrightarrow> (\<forall>j. i \<le> j \<and> j < length vf \<longrightarrow> \<not> p (fst (vf ! j)))"
proof (induction vf p i rule: findIndexFrom.induct)
  case (1 vf p i)
  show ?case
  proof (cases "i < length vf")
    case False
    then have "findIndexFrom vf p i = - 1"
      by (rule findIndexFrom_unfold_out)
    moreover have "\<forall>j. i \<le> j \<and> j < length vf \<longrightarrow> \<not> p (fst (vf ! j))"
      using False by auto
    ultimately show ?thesis by blast
  next
    case inb: True
    show ?thesis
    proof (cases "p (fst (vf ! i))")
      case True
      then have "findIndexFrom vf p i = int i"
        using inb by (simp add: findIndexFrom_unfold_hit)
      then have "findIndexFrom vf p i \<noteq> - 1" by simp
      moreover have "\<not> (\<forall>j. i \<le> j \<and> j < length vf \<longrightarrow> \<not> p (fst (vf ! j)))"
        using True inb by blast
      ultimately show ?thesis by blast
    next
      case False
      have eq: "findIndexFrom vf p i = findIndexFrom vf p (i + 1)"
        using inb False by (rule findIndexFrom_unfold_miss)
      have ih: "findIndexFrom vf p (i + 1) = - 1 \<longleftrightarrow>
                (\<forall>j. i + 1 \<le> j \<and> j < length vf \<longrightarrow> \<not> p (fst (vf ! j)))"
        using "1.IH"[OF inb False] .
      have "(\<forall>j. i \<le> j \<and> j < length vf \<longrightarrow> \<not> p (fst (vf ! j))) \<longleftrightarrow>
            (\<forall>j. i + 1 \<le> j \<and> j < length vf \<longrightarrow> \<not> p (fst (vf ! j)))"
      proof
        assume a: "\<forall>j. i \<le> j \<and> j < length vf \<longrightarrow> \<not> p (fst (vf ! j))"
        show "\<forall>j. i + 1 \<le> j \<and> j < length vf \<longrightarrow> \<not> p (fst (vf ! j))"
          using a by auto
      next
        assume b: "\<forall>j. i + 1 \<le> j \<and> j < length vf \<longrightarrow> \<not> p (fst (vf ! j))"
        show "\<forall>j. i \<le> j \<and> j < length vf \<longrightarrow> \<not> p (fst (vf ! j))"
        proof (intro allI impI)
          fix j assume "i \<le> j \<and> j < length vf"
          then show "\<not> p (fst (vf ! j))"
            using False b by (cases "j = i") auto
        qed
      qed
      with eq ih show ?thesis by simp
    qed
  qed
qed

lemma findIndexFrom_found:
  "findIndexFrom vf p i \<noteq> - 1 \<Longrightarrow>
     \<exists>k. findIndexFrom vf p i = int k \<and> i \<le> k \<and> k < length vf \<and> p (fst (vf ! k))
        \<and> (\<forall>j. i \<le> j \<and> j < k \<longrightarrow> \<not> p (fst (vf ! j)))"
proof (induction vf p i rule: findIndexFrom.induct)
  case (1 vf p i)
  show ?case
  proof (cases "i < length vf")
    case False
    with "1.prems" show ?thesis by (simp add: findIndexFrom_unfold_out)
  next
    case inb: True
    show ?thesis
    proof (cases "p (fst (vf ! i))")
      case True
      with inb have "findIndexFrom vf p i = int i"
        by (simp add: findIndexFrom_unfold_hit)
      with inb True show ?thesis by auto
    next
      case False
      have eq: "findIndexFrom vf p i = findIndexFrom vf p (i + 1)"
        using inb False by (rule findIndexFrom_unfold_miss)
      with "1.prems" have ne: "findIndexFrom vf p (i + 1) \<noteq> - 1"
        by simp
      from "1.IH"[OF inb False ne] obtain k where k:
        "findIndexFrom vf p (i + 1) = int k" "i + 1 \<le> k" "k < length vf" "p (fst (vf ! k))"
        "\<forall>j. i + 1 \<le> j \<and> j < k \<longrightarrow> \<not> p (fst (vf ! j))"
        by blast
      have "\<forall>j. i \<le> j \<and> j < k \<longrightarrow> \<not> p (fst (vf ! j))"
      proof (intro allI impI)
        fix j assume "i \<le> j \<and> j < k"
        then show "\<not> p (fst (vf ! j))"
          using False k(5) by (cases "j = i") auto
      qed
      with k eq show ?thesis
        by (intro exI[of _ k]) simp
    qed
  qed
qed

section \<open>The shape of every call\<close>

lemma constructor_bigint:
  "constructor h cls (JBigInt v) = Inr (h @ [fresh cls (v AND getMask cls)], length h)"
  by (simp add: constructor_def)

lemma constructor_Inr:
  "constructor h cls bits = Inr (h', n) \<Longrightarrow> \<exists>v. h' = h @ [fresh cls v] \<and> n = length h"
  by (auto simp: constructor_def Let_def split: sum.splits if_splits)

lemma add_fresh:
  "add (h @ [fresh cls x]) (length h) bits =
     (case resolve cls bits of
        Inl e \<Rightarrow> Inl e
      | Inr v \<Rightarrow> Inr (h @ [fresh cls ((x OR v) AND getMask cls)], length h))"
  by (simp add: add_def lookup_snoc split: sum.splits)

lemma remove_fresh:
  "remove (h @ [fresh cls x]) (length h) bits =
     (case resolve cls bits of
        Inl e \<Rightarrow> Inl e
      | Inr v \<Rightarrow> Inr (h @ [fresh cls (x AND NOT v AND getMask cls)], length h))"
  by (simp add: remove_def lookup_snoc split: sum.splits)

lemma derive_Inr:
  assumes "lookup h self = Some t" and "resolve (con t) bits = Inr v"
  shows "derive d h self bits =
           Inr (h @ [fresh (con t) (derivedValue d (bitfield t) v (getMask (con t)))], length h)"
  using assms
  by (cases d)
     (simp_all add: with_fb_def without_def union_fb_def missing_def complement_def
        intersection_def difference_def symmetricDifference_def derivedValue_def
        constructor_bigint add_fresh remove_fresh)

lemma derive_no_bits:
  assumes "lookup h self = Some t" and "d = Missing \<or> d = Complement"
  shows "derive d h self bits =
           Inr (h @ [fresh (con t) (derivedValue d (bitfield t) 0 (getMask (con t)))], length h)"
  using assms
  by (auto simp: missing_def complement_def derivedValue_def constructor_bigint)

lemma derive_shape:
  assumes "derive d h self bits = Inr (h', n)"
  shows "\<exists>t v. lookup h self = Some t \<and> h' = h @ [fresh (con t) v] \<and> n = length h"
proof (cases "lookup h self")
  case None
  with assms show ?thesis
    by (cases d)
       (simp_all add: with_fb_def without_def union_fb_def missing_def complement_def
          intersection_def difference_def symmetricDifference_def)
next
  case (Some t)
  show ?thesis
  proof (cases "d = Missing \<or> d = Complement")
    case True
    with Some assms derive_no_bits[OF Some True, of bits] show ?thesis by auto
  next
    case False
    show ?thesis
    proof (cases "resolve (con t) bits")
      case (Inr v)
      with Some assms derive_Inr[OF Some Inr, of d] show ?thesis by auto
    next
      case (Inl e)
      with Some assms False show ?thesis
        by (cases d)
           (simp_all add: with_fb_def without_def union_fb_def
              intersection_def difference_def symmetricDifference_def
              constructor_bigint add_fresh remove_fresh)
    qed
  qed
qed

lemma add_shape:
  assumes "add h self bits = Inr (h', r)"
  shows "\<exists>t. lookup h self = Some t \<and> r = self \<and>
           (h' = h \<or> (\<not> frozen t \<and> (\<exists>v. h' = h[self := t\<lparr>bitfield := v\<rparr>])))"
  using assms by (auto simp: add_def split: option.splits if_splits sum.splits)

lemma remove_shape:
  assumes "remove h self bits = Inr (h', r)"
  shows "\<exists>t. lookup h self = Some t \<and> r = self \<and>
           (h' = h \<or> (\<not> frozen t \<and> (\<exists>v. h' = h[self := t\<lparr>bitfield := v\<rparr>])))"
  using assms by (auto simp: remove_def split: option.splits if_splits sum.splits)

lemma invert_unfrozen:
  assumes "lookup h self = Some t" and "\<not> frozen t"
  shows "invert h self =
           Inr ((h @ [fresh (con t) ((NOT (bitfield t) AND getMask (con t)) AND getMask (con t))])
                  [self := t\<lparr>bitfield := (NOT (bitfield t) AND getMask (con t)) AND getMask (con t)\<rparr>],
                self)"
  using assms by (simp add: invert_def missing_def constructor_bigint lookup_snoc)

lemma invert_shape:
  assumes "invert h self = Inr (h', r)"
  shows "\<exists>t. lookup h self = Some t \<and> r = self \<and>
           (h' = h \<or> (\<not> frozen t \<and> (\<exists>v w. h' = (h @ [fresh (con t) w])[self := t\<lparr>bitfield := v\<rparr>])))"
proof (cases "lookup h self")
  case None
  with assms show ?thesis by (simp add: invert_def)
next
  case (Some t)
  show ?thesis
  proof (cases "frozen t")
    case True
    with Some assms show ?thesis by (simp add: invert_def)
  next
    case False
    with Some assms invert_unfrozen[OF Some False] show ?thesis by auto
  qed
qed

lemma freeze_shape:
  assumes "freeze h self = Inr (h', r)"
  shows "\<exists>t. lookup h self = Some t \<and> r = self \<and> h' = h[self := t\<lparr>frozen := True\<rparr>]"
  using assms by (auto simp: freeze_def split: option.splits)

lemma exec_frozen_kept:
  assumes "exec h c = Inr (h', r)" and "lookup h q = Some t" and "frozen t"
  shows "lookup h' q = Some t"
proof (cases c)
  case (New cls bits)
  with assms constructor_Inr[of h cls bits h' r] show ?thesis
    by (auto simp: lookup_snoc lookup_Some_iff nth_append)
next
  case (Add self bits)
  with assms add_shape[of h self bits h' r] show ?thesis
    by (auto simp: lookup_update)
next
  case (Remove self bits)
  with assms remove_shape[of h self bits h' r] show ?thesis
    by (auto simp: lookup_update)
next
  case (Invert self)
  with assms invert_shape[of h self h' r] show ?thesis
    by (auto simp: lookup_Some_iff nth_append nth_list_update)
next
  case (Freeze self)
  with assms freeze_shape[of h self h' r] show ?thesis
    by (auto simp: lookup_update)
next
  case (Derive d self bits)
  with assms derive_shape[of d h self bits h' r] show ?thesis
    by (auto simp: lookup_snoc lookup_Some_iff nth_append)
qed

lemma exec_validFlagsOk:
  assumes "exec h c = Inr (h', r)" and "list_all validFlagsOk h"
  shows "list_all validFlagsOk h'"
proof (cases c)
  case (New cls bits)
  with assms constructor_Inr[of h cls bits h' r] show ?thesis
    by (auto simp: validFlagsOk_def)
next
  case (Add self bits)
  with assms add_shape[of h self bits h' r] show ?thesis
    by (auto simp: validFlagsOk_def list_all_iff lookup_Some_iff dest!: set_update_subset_insert[THEN subsetD])
next
  case (Remove self bits)
  with assms remove_shape[of h self bits h' r] show ?thesis
    by (auto simp: validFlagsOk_def list_all_iff lookup_Some_iff dest!: set_update_subset_insert[THEN subsetD])
next
  case (Invert self)
  with assms invert_shape[of h self h' r] show ?thesis
    by (auto simp: validFlagsOk_def list_all_iff lookup_Some_iff dest!: set_update_subset_insert[THEN subsetD])
next
  case (Freeze self)
  with assms freeze_shape[of h self h' r] show ?thesis
    by (auto simp: validFlagsOk_def list_all_iff lookup_Some_iff dest!: set_update_subset_insert[THEN subsetD])
next
  case (Derive d self bits)
  with assms derive_shape[of d h self bits h' r] show ?thesis
    by (auto simp: validFlagsOk_def)
qed

lemma run_frozen_kept:
  "run h cs = Inr h' \<Longrightarrow> lookup h q = Some t \<Longrightarrow> frozen t \<Longrightarrow> lookup h' q = Some t"
proof (induction cs arbitrary: h)
  case Nil
  then show ?case by simp
next
  case (Cons c cs)
  from Cons.prems(1) obtain h1 r where step: "exec h c = Inr (h1, r)" and rest: "run h1 cs = Inr h'"
    by (auto split: sum.splits)
  from exec_frozen_kept[OF step Cons.prems(2,3)] have "lookup h1 q = Some t" .
  from Cons.IH[OF rest this Cons.prems(3)] show ?case .
qed

lemma run_validFlagsOk:
  "run h cs = Inr h' \<Longrightarrow> list_all validFlagsOk h \<Longrightarrow> list_all validFlagsOk h'"
proof (induction cs arbitrary: h)
  case Nil
  then show ?case by simp
next
  case (Cons c cs)
  from Cons.prems(1) obtain h1 r where step: "exec h c = Inr (h1, r)" and rest: "run h1 cs = Inr h'"
    by (auto split: sum.splits)
  from exec_validFlagsOk[OF step Cons.prems(2)] have "list_all validFlagsOk h1" .
  from Cons.IH[OF rest this] show ?case .
qed

lemma reachable_validFlags:
  assumes "run [] cs = Inr h" and "lookup h r = Some t"
  shows "validFlags t = sortFlags (Flags (con t))"
proof -
  have "list_all validFlagsOk h"
    using run_validFlagsOk[OF assms(1)] by simp
  moreover have "t \<in> set h"
    using assms(2) by (auto simp: lookup_Some_iff)
  ultimately show ?thesis
    by (simp add: list_all_iff validFlagsOk_def)
qed

section \<open>Input normalisation\<close>






section \<open>Freezing\<close>

text \<open>
  Claim C4. A constructed instance is not frozen. \<open>freeze\<close> returns the receiver and
  sets \<open>frozen\<close>; a second \<open>freeze\<close> changes nothing; on the frozen instance \<open>add\<close>,
  \<open>remove\<close> and \<open>invert\<close> return the receiver and leave the whole store as it is; and
  whatever calls run afterwards, the instance keeps its value and stays frozen.
\<close>

theorem freeze_contract:
  assumes "lookup h self = Some t"
  shows "(\<forall>cls b h0 n. constructor h cls b = Inr (h0, n) \<longrightarrow>
            (\<exists>t0. lookup h0 n = Some t0 \<and> isFrozen t0 = False))
       \<and> (\<exists>hf. freeze h self = Inr (hf, self)
              \<and> lookup hf self = Some (t\<lparr>frozen := True\<rparr>)
              \<and> isFrozen (t\<lparr>frozen := True\<rparr>) = True
              \<and> freeze hf self = Inr (hf, self)
              \<and> (\<forall>bits. add hf self bits = Inr (hf, self) \<and> remove hf self bits = Inr (hf, self))
              \<and> invert hf self = Inr (hf, self)
              \<and> (\<forall>cs h'. run hf cs = Inr h' \<longrightarrow> lookup h' self = Some (t\<lparr>frozen := True\<rparr>)))"
proof -
  define hf where "hf = h[self := t\<lparr>frozen := True\<rparr>]"
  have inb: "self < length h"
    using assms by (simp add: lookup_Some_iff)
  have fr: "freeze h self = Inr (hf, self)"
    using assms by (simp add: freeze_def hf_def)
  have lf: "lookup hf self = Some (t\<lparr>frozen := True\<rparr>)"
    using inb by (simp add: hf_def lookup_update)
  have again: "freeze hf self = Inr (hf, self)"
    using lf by (simp add: freeze_def hf_def)
  have noop: "add hf self bits = Inr (hf, self) \<and> remove hf self bits = Inr (hf, self)" for bits
    using lf by (simp add: add_def remove_def)
  have inv: "invert hf self = Inr (hf, self)"
    using lf by (simp add: invert_def)
  have kept: "lookup h' self = Some (t\<lparr>frozen := True\<rparr>)" if "run hf cs = Inr h'" for cs h'
    using run_frozen_kept[OF that lf] by simp
  have new: "\<exists>t0. lookup h0 n = Some t0 \<and> isFrozen t0 = False"
    if "constructor h cls b = Inr (h0, n)" for cls b h0 n
    using constructor_Inr[OF that] by (auto simp: lookup_snoc isFrozen_def)
  show ?thesis
    using fr lf again noop inv kept new by (auto simp: isFrozen_def)
qed

theorem freeze_contract_witness:
  "lookup [fresh Permissions 3] 0 = Some (fresh Permissions 3)
   \<and> freeze [fresh Permissions 3] 0 = Inr ([(fresh Permissions 3)\<lparr>frozen := True\<rparr>], 0)
   \<and> freeze [(fresh Permissions 3)\<lparr>frozen := True\<rparr>] 0 = Inr ([(fresh Permissions 3)\<lparr>frozen := True\<rparr>], 0)
   \<and> add [(fresh Permissions 3)\<lparr>frozen := True\<rparr>] 0 (JString ''Admin'')
        = Inr ([(fresh Permissions 3)\<lparr>frozen := True\<rparr>], 0)
   \<and> remove [(fresh Permissions 3)\<lparr>frozen := True\<rparr>] 0 (JString ''Read'')
        = Inr ([(fresh Permissions 3)\<lparr>frozen := True\<rparr>], 0)
   \<and> invert [(fresh Permissions 3)\<lparr>frozen := True\<rparr>] 0
        = Inr ([(fresh Permissions 3)\<lparr>frozen := True\<rparr>], 0)
   \<and> run [(fresh Permissions 3)\<lparr>frozen := True\<rparr>] [Add 0 (JBigInt 8), Invert 0, Derive With 0 (JBigInt 4)]
        = Inr [(fresh Permissions 3)\<lparr>frozen := True\<rparr>, fresh Permissions 7]
   \<and> lookup [(fresh Permissions 3)\<lparr>frozen := True\<rparr>, fresh Permissions 7] 0
        = Some ((fresh Permissions 3)\<lparr>frozen := True\<rparr>)
   \<and> constructor [fresh Permissions 3] Permissions (JString ''Write'')
        = Inr ([fresh Permissions 3, fresh Permissions 2], 1)
   \<and> isFrozen (fresh Permissions 2) = False"
proof -
  let ?t = "fresh Permissions 3"
  let ?f = "?t\<lparr>frozen := True\<rparr>"
  have l: "lookup [?t] 0 = Some ?t"
    by (simp add: lookup_def)
  have f: "freeze [?t] 0 = Inr ([?f], 0)"
    by (simp add: freeze_def lookup_def)
  have r: "run [?f] [Add 0 (JBigInt 8), Invert 0, Derive With 0 (JBigInt 4)]
             = Inr [?f, fresh Permissions 7]"
    by (simp add: add_def invert_def with_fb_def constructor_def lookup_def getMask_def
          Permissions_def)
  have c: "constructor [?t] Permissions (JString ''Write'') = Inr ([?t, fresh Permissions 2], 1)"
    by (simp add: constructor_def safeIn_def Permissions_def)
  from freeze_contract[OF l] obtain hf where
    hf: "freeze [?t] 0 = Inr (hf, 0)"
    and again: "freeze hf 0 = Inr (hf, 0)"
    and noop: "\<And>bits. add hf 0 bits = Inr (hf, 0) \<and> remove hf 0 bits = Inr (hf, 0)"
    and inv: "invert hf 0 = Inr (hf, 0)"
    and kept: "\<And>cs h'. run hf cs = Inr h' \<Longrightarrow> lookup h' 0 = Some ?f"
    and new: "\<And>cls b h0 n. constructor [?t] cls b = Inr (h0, n) \<Longrightarrow>
                \<exists>t0. lookup h0 n = Some t0 \<and> isFrozen t0 = False"
    by blast
  from hf f have eq: "hf = [?f]" by simp
  from new[OF c] have unfrozen: "isFrozen (fresh Permissions 2) = False"
    by (simp add: lookup_def)
  have k: "lookup [?f, fresh Permissions 7] 0 = Some ?f"
    by (rule kept[unfolded eq, OF r])
  show ?thesis
    using l f again[unfolded eq] noop[of "JString ''Admin''", unfolded eq]
      noop[of "JString ''Read''", unfolded eq] inv[unfolded eq] r k c unfrozen
    by (intro conjI) simp_all
qed

section \<open>Enumeration of the flags\<close>

text \<open>
  Claim C5. For every instance a program can build, over a definition whose names are
  distinct, \<open>toArray\<close> is the iteration; the iteration holds exactly the declared names
  whose declared value \<open>v\<close> has \<open>bitfield AND v \<noteq> 0\<close>, each once, and the declared values
  along it ascend. With \<^verbatim>\<open>{Read: 1, Write: 2, Execute: 4, Admin: 8}\<close>, the instance
  constructed from \<^verbatim>\<open>['Write', 'Read']\<close> has \<open>toArray\<close> \<^verbatim>\<open>['Read', 'Write']\<close>.
\<close>

theorem toArray_ascending:
  assumes "run [] cs = Inr h" and "lookup h r = Some t"
    and "distinct (map fst (Flags (con t)))"
  shows "toArray t = iterator t
       \<and> set (iterator t) = {n. \<exists>v. (n, v) \<in> set (Flags (con t)) \<and> bitfield t AND v \<noteq> 0}
       \<and> distinct (iterator t)
       \<and> sorted (map (\<lambda>n. case map_of (Flags (con t)) n of Some v \<Rightarrow> v | None \<Rightarrow> 0)
                      (iterator t))
       \<and> (\<exists>t1. constructor [] Permissions (JArray [JString ''Write'', JString ''Read''])
                   = Inr ([t1], 0)
               \<and> toArray t1 = [''Read'', ''Write''])"
proof -
  have vf: "validFlags t = sortFlags (Flags (con t))"
    using reachable_validFlags[OF assms(1,2)] .
  have d: "distinct (map fst (validFlags t))"
    using assms(3) by (simp add: vf distinct_sortFlags)
  have s: "set (iterator t) = {n. \<exists>v. (n, v) \<in> set (Flags (con t)) \<and> bitfield t AND v \<noteq> 0}"
    by (simp add: iterator_def set_iterate vf set_sortFlags)
  have "\<And>n v. (n, v) \<in> set (validFlags t) \<Longrightarrow>
          (case map_of (Flags (con t)) n of Some v \<Rightarrow> v | None \<Rightarrow> 0) = v"
    using assms(3) by (simp add: vf set_sortFlags)
  with d have so: "sorted (map (\<lambda>n. case map_of (Flags (con t)) n of Some v \<Rightarrow> v | None \<Rightarrow> 0)
                      (iterator t))"
    unfolding iterator_def
    by (intro sorted_iterate) (simp_all add: vf sorted_sortFlags)
  have ex: "constructor [] Permissions (JArray [JString ''Write'', JString ''Read''])
              = Inr ([fresh Permissions 3], 0)
            \<and> toArray (fresh Permissions 3) = [''Read'', ''Write'']"
    by (simp add: constructor_def toArray_def iterator_def sortFlags_def compareFlags_def
          safeIn_def Permissions_def)
  show ?thesis
    using s so ex d by (auto simp: toArray_def iterator_def distinct_iterate)
qed

theorem toArray_ascending_witness:
  "run [] [New Permissions (JArray [JString ''Write'', JString ''Read'']), Add 0 (JString ''Admin'')]
     = Inr [fresh Permissions 11]
   \<and> lookup [fresh Permissions 11] 0 = Some (fresh Permissions 11)
   \<and> distinct (map fst (Flags (con (fresh Permissions 11))))
   \<and> toArray (fresh Permissions 11) = [''Read'', ''Write'', ''Admin'']
   \<and> set (iterator (fresh Permissions 11))
       = {n. \<exists>v. (n, v) \<in> set (Flags (con (fresh Permissions 11)))
                \<and> bitfield (fresh Permissions 11) AND v \<noteq> 0}
   \<and> distinct (iterator (fresh Permissions 11))"
proof -
  have r: "run [] [New Permissions (JArray [JString ''Write'', JString ''Read'']),
                   Add 0 (JString ''Admin'')] = Inr [fresh Permissions 11]"
    by (simp add: constructor_def add_def lookup_def safeIn_def getMask_def Permissions_def)
  have l: "lookup [fresh Permissions 11] 0 = Some (fresh Permissions 11)"
    by (simp add: lookup_def)
  have d: "distinct (map fst (Flags (con (fresh Permissions 11))))"
    by (simp add: Permissions_def)
  have a: "toArray (fresh Permissions 11) = [''Read'', ''Write'', ''Admin'']"
    by (simp add: toArray_def iterator_def sortFlags_def compareFlags_def Permissions_def)
  from toArray_ascending[OF r l d] r l d a show ?thesis
    by blast
qed

text \<open>
  Claim C6, as the code has it. The iteration tests \<open>bitfield AND v \<noteq> 0\<close>, which no
  bitfield passes for \<open>v = 0\<close>: a flag declared with value 0 is never yielded, whatever the
  value of the instance.
\<close>

theorem zero_flag_never_yielded:
  assumes "run [] cs = Inr h" and "lookup h r = Some t"
    and "distinct (map fst (Flags (con t)))" and "(n, 0) \<in> set (Flags (con t))"
  shows "n \<notin> set (iterator t) \<and> n \<notin> set (toArray t)"
proof -
  have vf: "validFlags t = sortFlags (Flags (con t))"
    using reachable_validFlags[OF assms(1,2)] .
  have "bitfield t AND v = 0" if "(n, v) \<in> set (Flags (con t))" for v
  proof -
    have "v = 0"
      using assms(3,4) that by (metis map_of_declared option.inject)
    then show ?thesis by simp
  qed
  then have "n \<notin> set (iterator t)"
    by (auto simp: iterator_def set_iterate vf set_sortFlags)
  then show ?thesis by (simp add: toArray_def)
qed

theorem zero_flag_never_yielded_witness:
  "run [] [New WithNone (JBigInt 3)] = Inr [fresh WithNone 3]
   \<and> lookup [fresh WithNone 3] 0 = Some (fresh WithNone 3)
   \<and> distinct (map fst (Flags (con (fresh WithNone 3))))
   \<and> (''None'', 0) \<in> set (Flags (con (fresh WithNone 3)))
   \<and> ''None'' \<notin> set (toArray (fresh WithNone 3))"
proof -
  have r: "run [] [New WithNone (JBigInt 3)] = Inr [fresh WithNone 3]"
    by (simp add: constructor_def getMask_def WithNone_def)
  have l: "lookup [fresh WithNone 3] 0 = Some (fresh WithNone 3)"
    by (simp add: lookup_def)
  have d: "distinct (map fst (Flags (con (fresh WithNone 3))))"
    by (simp add: WithNone_def)
  have z: "(''None'', 0) \<in> set (Flags (con (fresh WithNone 3)))"
    by (simp add: WithNone_def)
  from zero_flag_never_yielded[OF r l d z] r l d z show ?thesis
    by blast
qed

text \<open>
  The claim as the specification words it fails: the class \<open>WithNone\<close> declares
  \<^verbatim>\<open>None: 0\<close>, and the instance constructed from \<open>3\<close> yields \<^verbatim>\<open>['Read', 'Write']\<close>.
\<close>

theorem zero_flag_counterexample:
  "constructor [] WithNone (JBigInt 3) = Inr ([fresh WithNone 3], 0)
   \<and> map_of (Flags WithNone) ''None'' = Some 0
   \<and> toArray (fresh WithNone 3) = [''Read'', ''Write'']
   \<and> ''None'' \<notin> set (toArray (fresh WithNone 3))"
  by (simp add: constructor_def getMask_def toArray_def iterator_def sortFlags_def
        compareFlags_def WithNone_def)

text \<open>
  Claim C7. \<open>entries\<close> lists all declared flags in ascending declared value, whatever the
  bitfield is. \<open>findIndex\<close> is \<open>-1\<close> when no declared name satisfies the predicate, and
  otherwise the position in \<open>entries\<close> of the first name that does; it does not depend
  on the bitfield, so flags that are not present are tested like the others.
\<close>

theorem findIndex_declared_order:
  assumes "run [] cs = Inr h" and "lookup h r = Some t"
  shows "set (entries t) = set (Flags (con t))
       \<and> sorted (map snd (entries t))
       \<and> keys t = map fst (entries t)
       \<and> ((findIndex t p = - 1 \<and> (\<forall>n \<in> set (keys t). \<not> p n))
          \<or> (\<exists>i. i < length (entries t) \<and> findIndex t p = int i \<and> p (fst (entries t ! i))
                 \<and> (\<forall>j < i. \<not> p (fst (entries t ! j)))))
       \<and> findIndex (t\<lparr>bitfield := x\<rparr>) p = findIndex t p
       \<and> entries (t\<lparr>bitfield := x\<rparr>) = entries t"
proof -
  have vf: "validFlags t = sortFlags (Flags (con t))"
    using reachable_validFlags[OF assms] .
  have a: "set (entries t) = set (Flags (con t))"
    by (simp add: entries_def vf set_sortFlags)
  have b: "sorted (map snd (entries t))"
    by (simp add: entries_def vf sorted_sortFlags)
  have c: "(findIndex t p = - 1 \<and> (\<forall>n \<in> set (keys t). \<not> p n))
          \<or> (\<exists>i. i < length (entries t) \<and> findIndex t p = int i \<and> p (fst (entries t ! i))
                 \<and> (\<forall>j < i. \<not> p (fst (entries t ! j))))"
  proof (cases "findIndex t p = - 1")
    case True
    then have "\<forall>j. 0 \<le> j \<and> j < length (validFlags t) \<longrightarrow> \<not> p (fst (validFlags t ! j))"
      using findIndexFrom_none[of "validFlags t" p 0] by (simp add: findIndex_def)
    then have "\<forall>n \<in> set (keys t). \<not> p n"
      by (fastforce simp: keys_def in_set_conv_nth)
    with True show ?thesis by blast
  next
    case False
    then have "findIndexFrom (validFlags t) p 0 \<noteq> - 1"
      by (simp add: findIndex_def)
    from findIndexFrom_found[OF this] obtain k where
      "findIndexFrom (validFlags t) p 0 = int k" "k < length (validFlags t)"
      "p (fst (validFlags t ! k))" "\<forall>j. 0 \<le> j \<and> j < k \<longrightarrow> \<not> p (fst (validFlags t ! j))"
      by blast
    then have "k < length (entries t) \<and> findIndex t p = int k \<and> p (fst (entries t ! k))
                 \<and> (\<forall>j < k. \<not> p (fst (entries t ! j)))"
      by (simp add: findIndex_def entries_def)
    then show ?thesis by blast
  qed
  show ?thesis
    using a b c by (simp add: keys_def entries_def findIndex_def)
qed

theorem findIndex_declared_order_witness:
  "run [] [New Permissions (JString ''Read'')] = Inr [fresh Permissions 1]
   \<and> lookup [fresh Permissions 1] 0 = Some (fresh Permissions 1)
   \<and> toArray (fresh Permissions 1) = [''Read'']
   \<and> entries (fresh Permissions 1) = [(''Read'', 1), (''Write'', 2), (''Execute'', 4), (''Admin'', 8)]
   \<and> sorted (map snd (entries (fresh Permissions 1)))
   \<and> findIndex (fresh Permissions 1) (\<lambda>n. n = ''Execute'') = 2
   \<and> findIndex (fresh Permissions 1) (\<lambda>n. n = ''Other'') = - 1
   \<and> findIndex ((fresh Permissions 1)\<lparr>bitfield := 4\<rparr>) (\<lambda>n. n = ''Execute'')
       = findIndex (fresh Permissions 1) (\<lambda>n. n = ''Execute'')"
proof -
  have r: "run [] [New Permissions (JString ''Read'')] = Inr [fresh Permissions 1]"
    by (simp add: constructor_def safeIn_def Permissions_def)
  have l: "lookup [fresh Permissions 1] 0 = Some (fresh Permissions 1)"
    by (simp add: lookup_def)
  have a: "toArray (fresh Permissions 1) = [''Read'']"
    by (simp add: toArray_def iterator_def sortFlags_def compareFlags_def Permissions_def)
  have e: "entries (fresh Permissions 1)
             = [(''Read'', 1), (''Write'', 2), (''Execute'', 4), (''Admin'', 8)]"
    by (simp add: entries_def sortFlags_def compareFlags_def Permissions_def)
  have f2: "findIndex (fresh Permissions 1) (\<lambda>n. n = ''Execute'') = 2"
    by (simp add: findIndex_def findIndexFrom.simps sortFlags_def compareFlags_def Permissions_def)
  have f0: "findIndex (fresh Permissions 1) (\<lambda>n. n = ''Other'') = - 1"
    by (simp add: findIndex_def findIndexFrom.simps sortFlags_def compareFlags_def Permissions_def)
  from findIndex_declared_order[OF r l, of "\<lambda>n. n = ''Execute''" 4] r l a e f2 f0
  show ?thesis by simp
qed

section \<open>Methods that return a new instance\<close>

lemma derive_Inl:
  assumes "lookup h self = Some t" and "resolve (con t) bits = Inl e"
    and "d \<noteq> Missing" and "d \<noteq> Complement"
  shows "derive d h self bits = Inl e"
  using assms
  by (cases d)
     (simp_all add: with_fb_def without_def union_fb_def intersection_def difference_def
        symmetricDifference_def constructor_bigint add_fresh remove_fresh)

lemma derive_total:
  assumes "lookup h self = Some t" and "derive d h self bits = Inr (h', n)"
  shows "\<exists>v. \<forall>g. lookup g self = Some (t\<lparr>frozen := frozen (g ! self)\<rparr>) \<longrightarrow>
           derive d g self bits = Inr (g @ [fresh (con t) v], length g)"
proof (cases "resolve (con t) bits")
  case (Inr v)
  have "derive d g self bits
          = Inr (g @ [fresh (con t) (derivedValue d (bitfield t) v (getMask (con t)))], length g)"
    if "lookup g self = Some (t\<lparr>frozen := frozen (g ! self)\<rparr>)" for g
    using derive_Inr[OF that, of bits v d] Inr by simp
  then show ?thesis by blast
next
  case (Inl e)
  have nb: "d = Missing \<or> d = Complement"
    using derive_Inl[OF assms(1) Inl, of d] assms(2) by auto
  have "derive d g self bits
          = Inr (g @ [fresh (con t) (derivedValue d (bitfield t) 0 (getMask (con t)))], length g)"
    if "lookup g self = Some (t\<lparr>frozen := frozen (g ! self)\<rparr>)" for g
    using derive_no_bits[OF that nb, of bits] by simp
  then show ?thesis by blast
qed




text \<open>
  Claim C10. Whenever one of the eight methods returns, the returned instance is not
  frozen, and the method returns that same instance when the receiver is frozen: the
  frozen flag of the receiver plays no part. On a frozen receiver and an input whose
  numbers are integers the method does return.
\<close>

theorem derive_unfrozen:
  assumes "lookup h self = Some t"
  shows "(integral bits \<longrightarrow>
            (\<exists>h' n. derive d (h[self := t\<lparr>frozen := True\<rparr>]) self bits = Inr (h', n)))
       \<and> (\<forall>h' n. derive d h self bits = Inr (h', n) \<longrightarrow>
             (\<exists>t'. lookup h' n = Some t' \<and> isFrozen t' = False
                  \<and> (\<exists>h''. derive d (h[self := t\<lparr>frozen := True\<rparr>]) self bits = Inr (h'', n)
                         \<and> lookup h'' n = Some t')))"
proof (intro conjI impI allI)
  let ?hf = "h[self := t\<lparr>frozen := True\<rparr>]"
  have inb: "self < length h"
    using assms by (simp add: lookup_Some_iff)
  have lf: "lookup ?hf self = Some (t\<lparr>frozen := True\<rparr>)"
    using inb by (simp add: lookup_update)
  {
    assume "integral bits"
    from resolve_integral[OF this] obtain v where "resolve (con t) bits = Inr v"
      by blast
    with derive_Inr[OF lf, of bits v d] show "\<exists>h' n. derive d ?hf self bits = Inr (h', n)"
      by simp
  }
  fix h' n
  assume ret: "derive d h self bits = Inr (h', n)"
  from derive_total[OF assms ret] obtain v where
    v: "\<And>g. lookup g self = Some (t\<lparr>frozen := frozen (g ! self)\<rparr>) \<Longrightarrow>
           derive d g self bits = Inr (g @ [fresh (con t) v], length g)"
    by blast
  have "lookup h self = Some (t\<lparr>frozen := frozen (h ! self)\<rparr>)"
    using assms by (auto simp: lookup_Some_iff)
  from v[OF this] ret have h': "h' = h @ [fresh (con t) v]" and n: "n = length h"
    by simp_all
  have "lookup ?hf self = Some (t\<lparr>frozen := frozen (?hf ! self)\<rparr>)"
    using inb by (simp add: lookup_update)
  from v[OF this] have two: "derive d ?hf self bits = Inr (?hf @ [fresh (con t) v], n)"
    using n by simp
  have "lookup h' n = Some (fresh (con t) v)"
    using h' n by (simp add: lookup_snoc)
  moreover have "lookup (?hf @ [fresh (con t) v]) n = Some (fresh (con t) v)"
    using n by (simp add: lookup_snoc)
  ultimately show "\<exists>t'. lookup h' n = Some t' \<and> isFrozen t' = False
                  \<and> (\<exists>h''. derive d ?hf self bits = Inr (h'', n) \<and> lookup h'' n = Some t')"
    using two by (auto simp: isFrozen_def)
qed

theorem derive_unfrozen_witness:
  "lookup [fresh Permissions 3] 0 = Some (fresh Permissions 3)
   \<and> integral (JString ''Admin'')
   \<and> derive With [fresh Permissions 3] 0 (JString ''Admin'')
       = Inr ([fresh Permissions 3, fresh Permissions 11], 1)
   \<and> derive With [(fresh Permissions 3)\<lparr>frozen := True\<rparr>] 0 (JString ''Admin'')
       = Inr ([(fresh Permissions 3)\<lparr>frozen := True\<rparr>, fresh Permissions 11], 1)
   \<and> isFrozen ((fresh Permissions 3)\<lparr>frozen := True\<rparr>) = True
   \<and> isFrozen (fresh Permissions 11) = False"
proof -
  let ?t = "fresh Permissions 3"
  let ?f = "?t\<lparr>frozen := True\<rparr>"
  have l: "lookup [?t] 0 = Some ?t"
    by (simp add: lookup_def)
  have i: "integral (JString ''Admin'')"
    by simp
  have e: "derive With [?t] 0 (JString ''Admin'') = Inr ([?t, fresh Permissions 11], 1)"
    by (simp add: with_fb_def add_def constructor_def lookup_def safeIn_def getMask_def
          Permissions_def)
  have e': "derive With [?f] 0 (JString ''Admin'') = Inr ([?f, fresh Permissions 11], 1)"
    by (simp add: with_fb_def add_def constructor_def lookup_def safeIn_def getMask_def
          Permissions_def)
  from derive_unfrozen[OF l, of "JString ''Admin''" With] e obtain t' where
    l': "lookup [?t, fresh Permissions 11] 1 = Some t'" and u: "isFrozen t' = False"
    by blast
  from l' have "t' = fresh Permissions 11"
    by (simp add: lookup_def)
  with u have "isFrozen (fresh Permissions 11) = False"
    by simp
  with l i e e' show ?thesis by (simp add: isFrozen_def)
qed

section \<open>The mask\<close>

text \<open>
  What the code keeps of the invariant: a declared value lies in the mask; \<open>resolve\<close>
  stays in the mask unless an instance with bits outside it is part of the input; each of
  the eight methods, and \<open>add\<close>, \<open>remove\<close>, \<open>invert\<close> on an unfrozen receiver, leave an
  instance inside the mask whatever the input; so every program whose constructor inputs
  hold no instance with bits outside the mask keeps every instance inside. On such an
  instance \<open>any\<close> is \<open>has\<close> and the double complement is the identity.
\<close>

lemma and_not_zero_iff: "(x::int) AND NOT m = 0 \<longleftrightarrow> x AND m = x"
  by (auto simp: bit_eq_iff bit_and_iff bit_not_iff)

lemma inMask_and [simp]: "inMask cls (x AND getMask cls)"
  by (simp add: inMask_def and_not_zero_iff and.assoc)

lemma inMask_zero [simp]: "inMask cls 0"
  by (simp add: inMask_def)

lemma inMask_or: "inMask cls a \<Longrightarrow> inMask cls b \<Longrightarrow> inMask cls (a OR b)"
  by (simp add: inMask_def bit.conj_disj_distrib2)

lemma inMask_absorb: "inMask cls x \<Longrightarrow> x AND getMask cls = x"
  by (simp add: inMask_def and_not_zero_iff)

lemma bit_foldl_or:
  "bit (foldl (\<lambda>a b. a OR b) (a::int) vs) k \<longleftrightarrow> bit a k \<or> (\<exists>v \<in> set vs. bit v k)"
  by (induction vs arbitrary: a) (auto simp: bit_or_iff)

lemma declared_inMask:
  assumes "(n, v) \<in> set (Flags cls)"
  shows "inMask cls v"
proof -
  have "v \<in> set (map snd (Flags cls))"
    using assms by force
  then have "bit v k \<longrightarrow> bit (getMask cls) k" for k
    unfolding getMask_def bit_foldl_or by blast
  then show ?thesis
    by (auto simp: inMask_def bit_eq_iff bit_and_iff bit_not_iff)
qed

lemma resolve_array_inMask:
  assumes "\<And>b w. b \<in> set bs \<Longrightarrow> resolve cls b = Inr w \<Longrightarrow> inMask cls w"
    and "resolve cls (JArray bs) = Inr v"
  shows "inMask cls v"
  using assms
proof (induction bs arbitrary: v rule: rev_induct)
  case Nil
  then show ?case by simp
next
  case (snoc b bs)
  from snoc.prems(2) obtain a w where a: "resolve cls (JArray bs) = Inr a"
    and w: "resolve cls b = Inr w" and v: "v = a OR w"
    by (auto simp: resolve_array_snoc simp del: resolve.simps(1) split: sum.splits)
  have "inMask cls a"
  proof (rule snoc.IH[OF _ a])
    fix c u assume "c \<in> set bs" "resolve cls c = Inr u"
    then show "inMask cls u"
      using snoc.prems(1)[of c u] by simp
  qed
  moreover have "inMask cls w"
    using snoc.prems(1)[of b w] w by simp
  ultimately show ?case
    by (simp add: v inMask_or)
qed

lemma resolve_inMask:
  "instancesInMask cls bits \<Longrightarrow> resolve cls bits = Inr v \<Longrightarrow> inMask cls v"
proof (induction bits arbitrary: v)
  case (JArray bs)
  have "inMask cls w" if "b \<in> set bs" "resolve cls b = Inr w" for b w
    using JArray.IH[OF that(1) _ that(2)] JArray.prems(1) that(1)
    by (simp add: list_all_iff)
  then show ?case
    using JArray.prems(2) by (rule resolve_array_inMask)
next
  case (JString s)
  then show ?case
    by (auto simp: safeIn_map_of split: if_splits dest: map_of_SomeD declared_inMask)
next
  case (JNumber n)
  then show ?case by (cases n) auto
qed auto

lemma inMask_mask: "inMask cls (getMask cls)"
  by (simp add: inMask_def)

lemma inMask_and_right: "inMask cls b \<Longrightarrow> inMask cls (a AND b)"
  by (auto simp: inMask_def bit_eq_iff bit_and_iff bit_not_iff)

lemma derivedValue_inMask: "inMask cls (derivedValue d x v (getMask cls))"
  by (cases d) (simp_all add: derivedValue_def inMask_and_right inMask_mask)

lemma constructor_inMask:
  assumes "constructor h cls bits = Inr (h', n)" and "instancesInMask cls bits"
  shows "\<exists>t'. h' = h @ [t'] \<and> n = length h \<and> instanceInMask t'"
proof -
  let ?b = "if bits = JUndefined then JBigInt (DefaultBit cls) else bits"
  from assms(1) obtain v where v: "resolve cls ?b = Inr v" and h': "h' = h @ [fresh cls v]"
    and n: "n = length h"
    by (auto simp: constructor_def Let_def split: sum.splits)
  have "instancesInMask cls ?b"
    using assms(2) by simp
  from resolve_inMask[OF this v] h' n show ?thesis
    by (simp add: instanceInMask_def)
qed

lemma derive_inMask:
  assumes "derive d h self bits = Inr (h', n)"
  shows "\<exists>t'. h' = h @ [t'] \<and> n = length h \<and> instanceInMask t'"
proof -
  from derive_shape[OF assms] obtain t where t: "lookup h self = Some t"
    by blast
  show ?thesis
  proof (cases "resolve (con t) bits")
    case (Inr v)
    from derive_Inr[OF t Inr, of d] assms show ?thesis
      by (auto simp: instanceInMask_def derivedValue_inMask)
  next
    case (Inl e)
    have nb: "d = Missing \<or> d = Complement"
      using derive_Inl[OF t Inl, of d] assms by auto
    from derive_no_bits[OF t nb, of bits] assms show ?thesis
      by (auto simp: instanceInMask_def derivedValue_inMask)
  qed
qed

lemma add_inMask:
  assumes "add h self bits = Inr (h', r)" and "lookup h self = Some t" and "\<not> frozen t"
  shows "\<exists>t'. h' = h[self := t'] \<and> con t' = con t \<and> instanceInMask t'"
  using assms
  by (auto simp: add_def instanceInMask_def split: sum.splits)

lemma remove_inMask:
  assumes "remove h self bits = Inr (h', r)" and "lookup h self = Some t" and "\<not> frozen t"
  shows "\<exists>t'. h' = h[self := t'] \<and> con t' = con t \<and> instanceInMask t'"
  using assms
  by (auto simp: remove_def instanceInMask_def inMask_and_right inMask_mask split: sum.splits)

lemma invert_inMask:
  assumes "invert h self = Inr (h', r)" and "lookup h self = Some t" and "\<not> frozen t"
  shows "\<exists>t' m. h' = (h @ [m])[self := t'] \<and> con t' = con t \<and> instanceInMask t'
           \<and> instanceInMask m"
proof -
  let ?v = "(NOT (bitfield t) AND getMask (con t)) AND getMask (con t)"
  have "h' = (h @ [fresh (con t) ?v])[self := t\<lparr>bitfield := ?v\<rparr>]"
    using assms(1) invert_unfrozen[OF assms(2,3)] by auto
  moreover have "instanceInMask (t\<lparr>bitfield := ?v\<rparr>)" "instanceInMask (fresh (con t) ?v)"
    by (simp_all add: instanceInMask_def)
  moreover have "con (t\<lparr>bitfield := ?v\<rparr>) = con t"
    by simp
  ultimately show ?thesis by blast
qed

lemma list_all_update:
  "list_all P xs \<Longrightarrow> P x \<Longrightarrow> list_all P (xs[i := x])"
  by (auto simp: list_all_iff dest!: set_update_subset_insert[THEN subsetD])

lemma exec_inMask:
  assumes "exec h c = Inr (h', r)" and "callInMask c" and "list_all instanceInMask h"
  shows "list_all instanceInMask h'"
proof (cases c)
  case (New cls bits)
  with assms constructor_inMask[of h cls bits h' r] show ?thesis
    by auto
next
  case (Add self bits)
  with assms(1) obtain t where t: "lookup h self = Some t"
    by (auto simp: add_def split: option.splits)
  show ?thesis
  proof (cases "frozen t")
    case True
    with t Add assms show ?thesis by (simp add: add_def)
  next
    case False
    with add_inMask[OF _ t False, of bits h' r] Add assms show ?thesis
      by (auto simp: list_all_update)
  qed
next
  case (Remove self bits)
  with assms(1) obtain t where t: "lookup h self = Some t"
    by (auto simp: remove_def split: option.splits)
  show ?thesis
  proof (cases "frozen t")
    case True
    with t Remove assms show ?thesis by (simp add: remove_def)
  next
    case False
    with remove_inMask[OF _ t False, of bits h' r] Remove assms show ?thesis
      by (auto simp: list_all_update)
  qed
next
  case (Invert self)
  with assms(1) obtain t where t: "lookup h self = Some t"
    by (auto simp: invert_def split: option.splits)
  show ?thesis
  proof (cases "frozen t")
    case True
    with t Invert assms show ?thesis by (simp add: invert_def)
  next
    case False
    with invert_inMask[OF _ t False, of h' r] Invert assms show ?thesis
      by (auto simp: list_all_update)
  qed
next
  case (Freeze self)
  with assms freeze_shape[of h self h' r] show ?thesis
    by (auto simp: lookup_Some_iff instanceInMask_def list_all_length nth_list_update)
next
  case (Derive d self bits)
  with assms derive_inMask[of d h self bits h' r] show ?thesis
    by auto
qed

lemma run_inMask:
  "run h cs = Inr h' \<Longrightarrow> list_all callInMask cs \<Longrightarrow> list_all instanceInMask h
     \<Longrightarrow> list_all instanceInMask h'"
proof (induction cs arbitrary: h)
  case Nil
  then show ?case by simp
next
  case (Cons c cs)
  from Cons.prems(1) obtain h1 r where step: "exec h c = Inr (h1, r)"
    and rest: "run h1 cs = Inr h'"
    by (auto split: sum.splits)
  have "list_all instanceInMask h1"
    using exec_inMask[OF step] Cons.prems(2,3) by simp
  with Cons.IH[OF rest] Cons.prems(2) show ?case by simp
qed

lemma has_any_inMask:
  assumes "lookup h self = Some t" and "instanceInMask t"
  shows "any_fb h self bits = has t bits"
proof (cases "resolve (con t) bits")
  case (Inl e)
  with assms(1) show ?thesis
    by (simp add: any_fb_def has_def intersection_def)
next
  case (Inr v)
  have "(bitfield t AND v) AND getMask (con t) = bitfield t AND v"
    using inMask_absorb[of "con t" "bitfield t"] assms(2)
    by (simp add: instanceInMask_def and.assoc and.left_commute and.commute)
  with Inr assms(1) show ?thesis
    by (simp add: any_fb_def has_def intersection_def constructor_bigint lookup_snoc)
qed

lemma double_complement_inMask:
  assumes "lookup h self = Some t" and "instanceInMask t"
  shows "\<exists>h1 n1 h2 n2 t2. complement h self = Inr (h1, n1) \<and> complement h1 n1 = Inr (h2, n2)
           \<and> lookup h2 n2 = Some t2 \<and> bitfield t2 = bitfield t"
proof -
  let ?m = "getMask (con t)"
  let ?c = "fresh (con t) ((NOT (bitfield t) AND ?m) AND ?m)"
  have one: "complement h self = Inr (h @ [?c], length h)"
    using assms(1) by (simp add: complement_def missing_def constructor_bigint)
  have "lookup (h @ [?c]) (length h) = Some ?c"
    by (simp add: lookup_snoc)
  then have two: "complement (h @ [?c]) (length h)
                    = Inr (h @ [?c] @ [fresh (con t) ((NOT (bitfield ?c) AND ?m) AND ?m)],
                           Suc (length h))"
    by (simp add: complement_def missing_def constructor_bigint)
  have "(NOT ((NOT (bitfield t) AND ?m) AND ?m) AND ?m) AND ?m = bitfield t AND ?m"
    by (auto simp: bit_eq_iff bit_and_iff bit_not_iff bit_or_iff)
  also have "\<dots> = bitfield t"
    using assms(2) inMask_absorb[of "con t" "bitfield t"] unfolding instanceInMask_def by blast
  finally have val: "(NOT ((NOT (bitfield t) AND ?m) AND ?m) AND ?m) AND ?m = bitfield t" .
  have sel: "bitfield (fresh c v) = v" for c v
    by simp
  have "bitfield (fresh (con t) ((NOT (bitfield ?c) AND ?m) AND ?m)) = bitfield t"
    unfolding sel by (rule val)
  moreover have "lookup (h @ [?c] @ [fresh (con t) ((NOT (bitfield ?c) AND ?m) AND ?m)])
                   (Suc (length h))
                 = Some (fresh (con t) ((NOT (bitfield ?c) AND ?m) AND ?m))"
    by (simp add: lookup_def nth_append)
  ultimately show ?thesis
    using one two by blast
qed

section \<open>An instance of another class as input\<close>

text \<open>
  Claim C1 (\<open>value AND NOT mask = 0\<close> for every instance, whatever it was constructed
  from, another instance included), at the input where the code breaks it. \<open>HighFlags\<close>
  declares \<^verbatim>\<open>{A: 4, B: 8}\<close> and \<open>LowFlags\<close> declares \<^verbatim>\<open>{A: 1, B: 2}\<close>, mask 3. The
  \<open>LowFlags\<close> instance constructed from the \<open>HighFlags\<close> instance of value 4 has value 4:
  \<open>resolve\<close> returns \<^verbatim>\<open>bits.bitfield\<close> without the \<^verbatim>\<open>& this.getMask()\<close> of the numeric
  branch.
\<close>

theorem foreign_instance_escapes_mask:
  "run [] [New HighFlags (JString ''A''), New LowFlags (JInstance (fresh HighFlags 4))]
     = Inr [fresh HighFlags 4, fresh LowFlags 4]
   \<and> resolve LowFlags (JInstance (fresh HighFlags 4)) = Inr 4
   \<and> resolve LowFlags (JBigInt 4) = Inr 0
   \<and> getMask (con (fresh LowFlags 4)) = 3
   \<and> bitfield (fresh LowFlags 4) AND NOT (getMask (con (fresh LowFlags 4))) = 4"
  by (simp add: constructor_def safeIn_def getMask_def LowFlags_def HighFlags_def)

text \<open>
  Claim C3 (\<open>any\<close> returns what \<open>has\<close> returns), at that instance: \<open>has\<close> tests
  \<open>4 AND 4\<close>, \<open>any\<close> tests the bitfield of the intersection, which the constructor has
  masked to \<open>4 AND 4 AND 3 = 0\<close>.
\<close>

theorem any_differs_from_has_outside_mask:
  "run [] [New HighFlags (JString ''A''), New LowFlags (JInstance (fresh HighFlags 4))]
     = Inr [fresh HighFlags 4, fresh LowFlags 4]
   \<and> lookup [fresh HighFlags 4, fresh LowFlags 4] 1 = Some (fresh LowFlags 4)
   \<and> has (fresh LowFlags 4) (JInstance (fresh HighFlags 4)) = Inr True
   \<and> any_fb [fresh HighFlags 4, fresh LowFlags 4] 1 (JInstance (fresh HighFlags 4)) = Inr False"
  by (simp add: constructor_def has_def any_fb_def intersection_def lookup_def safeIn_def
        getMask_def LowFlags_def HighFlags_def)

text \<open>
  Claim C8 (\<open>complement (complement x)\<close> has the value of \<open>x\<close>), at that instance: the
  complement of value 4 under mask 3 is 3, and the complement of that is 0.
\<close>

theorem double_complement_outside_mask:
  "run [] [New HighFlags (JString ''A''), New LowFlags (JInstance (fresh HighFlags 4))]
     = Inr [fresh HighFlags 4, fresh LowFlags 4]
   \<and> complement [fresh HighFlags 4, fresh LowFlags 4] 1
       = Inr ([fresh HighFlags 4, fresh LowFlags 4, fresh LowFlags 3], 2)
   \<and> complement [fresh HighFlags 4, fresh LowFlags 4, fresh LowFlags 3] 2
       = Inr ([fresh HighFlags 4, fresh LowFlags 4, fresh LowFlags 3, fresh LowFlags 0], 3)
   \<and> bitfield (fresh LowFlags 0) \<noteq> bitfield (fresh LowFlags 4)"
  by (simp add: constructor_def complement_def missing_def lookup_def safeIn_def
        getMask_def LowFlags_def HighFlags_def)

end
